theory Spec2Isabelle
  imports Main "HOL-Library.Sublist" "HOL-Library.Multiset"
begin

section \<open>The crawl and detection engine of \<open>server/utils/scan-utils.ts\<close>\<close>

text \<open>
  A shallow embedding of the class \<open>Scanner\<close> and of \<open>runScan\<close>. Strings are
  \<open>string\<close>, the insertion-ordered \<open>Set<string>\<close> of visited URLs is the list of
  its elements in insertion order, the frontier array is a list, and every
  \<open>throw\<close> is a value \<open>Inl\<close> of a sum type. Whatever the engine calls outside this
  file (the URL parser, axios, cheerio, the regular expression engine and the built-in
  detector) is a field of the record \<open>env\<close>.
\<close>

subsection \<open>Data\<close>

text \<open>
  A thrown JavaScript value, as far as \<open>run\<close> looks at it: \<open>Some m\<close> when the value is
  truthy and its \<open>message\<close> is the string \<open>m\<close>, \<open>None\<close> otherwise.
\<close>

datatype thrown = Thrown "string option"

datatype detail_value = DStr string | DInt int | DBool bool

record custom_rule =
  rule_id :: int
  rule_name :: string
  rule_description :: string
  rule_category :: string
  rule_pattern :: string
  rule_severity :: string
  rule_enabled :: bool

text \<open>
  \<open>InsertVulnerability\<close>; the field \<open>url\<close> is \<open>vuln_url\<close> here. The severity is a
  string, as the column of the schema is: the evaluator copies that of a rule, which may
  be \<open>safe\<close>.
\<close>

record vulnerability =
  scanId :: int
  name :: string
  description :: string
  vuln_url :: string
  severity :: string
  category :: string
  details :: "(string \<times> detail_value) list"
  status :: string

text \<open>
  \<open>ScanOptions\<close>. The page budget \<open>crawlLimit\<close> is an integer, as the column of the
  schema and the validation of the request have it.
\<close>

record scan_options =
  url :: string
  scanLevel :: string
  crawlLimit :: int
  useAuthentication :: bool
  includeCustomRules :: bool
  customRules :: "custom_rule list option"

record scan_summary =
  totalVulnerabilities :: nat
  highSeverity :: nat
  mediumSeverity :: nat
  lowSeverity :: nat
  securityScore :: int

record scan_result =
  scannedUrls :: "string list"
  vulnerabilities :: "vulnerability list"
  summary :: scan_summary

record response =
  resp_status :: int
  resp_headers :: "(string \<times> string) list"
  resp_data :: string

text \<open>
  The collaborators of the engine.
  \<^item> \<open>parseUrl s\<close> is \<open>new URL(s)\<close>: the pair of \<open>protocol\<close> and \<open>host\<close>, or \<open>None\<close>
    when the constructor throws.
  \<^item> \<open>resolveUrl link base\<close> is \<open>new URL(link, base).href\<close>, \<open>None\<close> when it throws.
  \<^item> \<open>httpGet u\<close> is the awaited \<open>axios.get(u, ...)\<close>. The field \<open>resp_data\<close> of
    its answer is \<open>response.data\<close>, the one field that the engine reads, in the string
    form in which \<open>RegExp.prototype.test\<close> reads it. It is what axios makes of the body
    of the page: the text of the body, unless axios has parsed the body as JSON.
  \<^item> \<open>detectVulnerabilities u r level\<close> is the awaited call of the built-in detector.
  \<^item> \<open>anchorHrefs html\<close> is \<open>cheerio.load(html)\<close> followed by the collection of the
    \<open>href\<close> attributes of \<open>a[href]\<close>.
  \<^item> \<open>regexTest p flags c\<close> is \<open>new RegExp(p, flags).test(c)\<close>; \<open>Inl\<close> when either
    the constructor or the test throws. The evaluator calls it with the flags \<open>i\<close>, the
    flag of the engine for matching without regard to case.

  A scan fetches a URL at most once (the list of visited URLs has no duplicates,
  \<open>run_scannedUrls\<close> below), so that the answer of the network is taken as a function
  of the URL.
\<close>

record env =
  parseUrl :: "string \<Rightarrow> (string \<times> string) option"
  resolveUrl :: "string \<Rightarrow> string \<Rightarrow> string option"
  httpGet :: "string \<Rightarrow> thrown + response"
  detectVulnerabilities :: "string \<Rightarrow> response \<Rightarrow> string \<Rightarrow> thrown + vulnerability list"
  anchorHrefs :: "string \<Rightarrow> thrown + string list"
  regexTest :: "string \<Rightarrow> string \<Rightarrow> string \<Rightarrow> thrown + bool"

text \<open>
  The private fields of \<open>Scanner\<close>. The fields \<open>customRules\<close> and \<open>scanLevel\<close> of the
  class are \<open>sc_customRules\<close> and \<open>sc_scanLevel\<close>, the constructor parameter
  \<open>options\<close> is \<open>sc_options\<close>.
\<close>

record scanner =
  visited :: "string list"
  queue :: "string list"
  maxPages :: int
  baseUrl :: string
  sc_customRules :: "custom_rule list"
  sc_scanLevel :: string
  sc_options :: scan_options

subsection \<open>The constructor\<close>

definition Scanner_new :: "env \<Rightarrow> scan_options \<Rightarrow> thrown + scanner" where
  "Scanner_new e opts =
     (case parseUrl e (url opts) of
        None \<Rightarrow> Inl (Thrown (Some ''Invalid URL format''))
      | Some (protocol, host) \<Rightarrow>
          Inr \<lparr> visited = [],
                queue = [url opts],
                maxPages = crawlLimit opts,
                baseUrl = protocol @ ''//'' @ host,
                sc_customRules = (case customRules opts of None \<Rightarrow> [] | Some rs \<Rightarrow> rs),
                sc_scanLevel = scanLevel opts,
                sc_options = opts \<rparr>)"

subsection \<open>Link extraction\<close>

text \<open>The body of the \<open>for (const link of links)\<close> loop, one link at a time.\<close>

fun extractLinks_loop :: "env \<Rightarrow> string \<Rightarrow> string list \<Rightarrow> scanner \<Rightarrow> scanner" where
  "extractLinks_loop e pageUrl [] sc = sc"
| "extractLinks_loop e pageUrl (link # links) sc =
     (if link = [] \<or> prefix ''javascript:'' link \<or> prefix ''mailto:'' link \<or> prefix ''#'' link
      then extractLinks_loop e pageUrl links sc
      else (case resolveUrl e link pageUrl of
              None \<Rightarrow> extractLinks_loop e pageUrl links sc
            | Some absoluteUrl \<Rightarrow>
                if prefix (baseUrl sc) absoluteUrl
                   \<and> absoluteUrl \<notin> set (visited sc)
                   \<and> absoluteUrl \<notin> set (queue sc)
                then extractLinks_loop e pageUrl links (sc\<lparr>queue := queue sc @ [absoluteUrl]\<rparr>)
                else extractLinks_loop e pageUrl links sc))"

definition extractLinks :: "env \<Rightarrow> scanner \<Rightarrow> string \<Rightarrow> string \<Rightarrow> scanner" where
  "extractLinks e sc pageUrl html =
     (case anchorHrefs e html of
        Inl err \<Rightarrow> sc
      | Inr links \<Rightarrow> extractLinks_loop e pageUrl links sc)"

subsection \<open>Custom rules\<close>

definition ruleFinding :: "string \<Rightarrow> custom_rule \<Rightarrow> vulnerability" where
  "ruleFinding u rule =
     \<lparr> scanId = 0,
       name = rule_name rule,
       description = rule_description rule,
       vuln_url = u,
       severity = rule_severity rule,
       category = rule_category rule,
       details = [(''rule'', DInt (rule_id rule)), (''matched'', DBool True)],
       status = ''pending'' \<rparr>"

text \<open>
  The \<open>for (const rule of this.customRules)\<close> loop with its accumulator; the \<open>catch\<close>
  inside the loop only logs.
\<close>

fun checkCustomRules_loop ::
  "env \<Rightarrow> custom_rule list \<Rightarrow> string \<Rightarrow> string \<Rightarrow> vulnerability list \<Rightarrow> vulnerability list" where
  "checkCustomRules_loop e [] u content acc = acc"
| "checkCustomRules_loop e (rule # rules) u content acc =
     (if rule_enabled rule
      then (case regexTest e (rule_pattern rule) ''i'' content of
              Inl err \<Rightarrow> checkCustomRules_loop e rules u content acc
            | Inr matched \<Rightarrow>
                if matched
                then checkCustomRules_loop e rules u content (acc @ [ruleFinding u rule])
                else checkCustomRules_loop e rules u content acc)
      else checkCustomRules_loop e rules u content acc)"

definition checkCustomRules :: "env \<Rightarrow> scanner \<Rightarrow> string \<Rightarrow> string \<Rightarrow> vulnerability list" where
  "checkCustomRules e sc u content = checkCustomRules_loop e (sc_customRules sc) u content []"

subsection \<open>The summary\<close>

definition calculateSummary :: "vulnerability list \<Rightarrow> scan_summary" where
  "calculateSummary vs =
     (let high = length (filter (\<lambda>v. severity v = ''high'') vs);
          medium = length (filter (\<lambda>v. severity v = ''medium'') vs);
          low = length (filter (\<lambda>v. severity v = ''low'') vs);
          total = length vs;
          score = 100 - (int high * 10 + int medium * 5 + int low * 2);
          score = max 0 score;
          score = min 100 score
      in \<lparr> totalVulnerabilities = total,
            highSeverity = high,
            mediumSeverity = medium,
            lowSeverity = low,
            securityScore = score \<rparr>)"

subsection \<open>The crawl loop\<close>

definition errorMessage :: "thrown \<Rightarrow> string" where
  "errorMessage err = (case err of Thrown (Some m) \<Rightarrow> m | Thrown None \<Rightarrow> ''Unknown error occurred'')"

definition accessError :: "string \<Rightarrow> string \<Rightarrow> vulnerability" where
  "accessError currentUrl msg =
     \<lparr> scanId = 0,
       name = ''URL Access Error'',
       description = ''Could not access '' @ currentUrl @ '': '' @ msg,
       vuln_url = currentUrl,
       severity = ''low'',
       category = ''Accessibility'',
       details = [(''error'', DStr msg)],
       status = ''pending'' \<rparr>"

text \<open>
  The \<open>try\<close>/\<open>catch\<close> of one iteration, after \<open>currentUrl\<close> has been added to
  \<open>visited\<close>: the scanner afterwards and the findings pushed. Only the fetch and the
  detector can throw into the \<open>catch\<close>; both do so before anything is pushed.
\<close>

definition processPage :: "env \<Rightarrow> scanner \<Rightarrow> string \<Rightarrow> scanner \<times> vulnerability list" where
  "processPage e sc currentUrl =
     (case httpGet e currentUrl of
        Inl err \<Rightarrow> (sc, [accessError currentUrl (errorMessage err)])
      | Inr resp \<Rightarrow>
          (case detectVulnerabilities e currentUrl resp (sc_scanLevel sc) of
             Inl err \<Rightarrow> (sc, [accessError currentUrl (errorMessage err)])
           | Inr detected \<Rightarrow>
               (let custom = (if includeCustomRules (sc_options sc) \<and> sc_customRules sc \<noteq> []
                              then checkCustomRules e sc currentUrl (resp_data resp)
                              else []);
                    sc' = (if sc_scanLevel sc \<noteq> ''quick''
                           then extractLinks e sc currentUrl (resp_data resp)
                           else sc)
                in (sc', detected @ custom))))"

definition loop_cond :: "scanner \<Rightarrow> bool" where
  "loop_cond sc \<longleftrightarrow> queue sc \<noteq> [] \<and> int (length (visited sc)) < maxPages sc"

text \<open>One execution of the body of the \<open>while\<close> loop.\<close>

definition loop_body :: "env \<Rightarrow> scanner \<times> vulnerability list \<Rightarrow> scanner \<times> vulnerability list" where
  "loop_body e st =
     (case st of (sc, vulns) \<Rightarrow>
        (case queue sc of
           [] \<Rightarrow> (sc, vulns)
         | currentUrl # rest \<Rightarrow>
             (let sc1 = sc\<lparr>queue := rest\<rparr> in
              if currentUrl \<in> set (visited sc1) then (sc1, vulns)
              else (case processPage e (sc1\<lparr>visited := visited sc1 @ [currentUrl]\<rparr>) currentUrl of
                      (sc2, found) \<Rightarrow> (sc2, vulns @ found)))))"

lemma extractLinks_loop_visited [simp]:
  "visited (extractLinks_loop e pageUrl links sc) = visited sc"
  by (induction links arbitrary: sc) (auto split: option.splits)

lemma extractLinks_loop_maxPages [simp]:
  "maxPages (extractLinks_loop e pageUrl links sc) = maxPages sc"
  by (induction links arbitrary: sc) (auto split: option.splits)

lemma processPage_visited [simp]: "visited (fst (processPage e sc u)) = visited sc"
  by (simp add: processPage_def extractLinks_def Let_def split: sum.splits)

lemma processPage_maxPages [simp]: "maxPages (fst (processPage e sc u)) = maxPages sc"
  by (simp add: processPage_def extractLinks_def Let_def split: sum.splits)

definition loop_measure :: "scanner \<Rightarrow> nat \<times> nat" where
  "loop_measure sc = (nat (maxPages sc - int (length (visited sc))), length (queue sc))"

lemma loop_body_decreases:
  assumes "loop_cond sc"
  shows "(loop_measure (fst (loop_body e (sc, vulns))), loop_measure sc) \<in> less_than <*lex*> less_than"
proof (cases "queue sc")
  case Nil
  with assms show ?thesis by (simp add: loop_cond_def)
next
  case (Cons currentUrl rest)
  show ?thesis
  proof (cases "currentUrl \<in> set (visited sc)")
    case True
    with Cons show ?thesis
      by (simp add: loop_body_def loop_measure_def)
  next
    case False
    obtain sc2 found
      where p: "processPage e (sc\<lparr>queue := rest, visited := visited sc @ [currentUrl]\<rparr>) currentUrl
                  = (sc2, found)"
      by (cases "processPage e (sc\<lparr>queue := rest, visited := visited sc @ [currentUrl]\<rparr>) currentUrl")
    have v: "visited sc2 = visited sc @ [currentUrl]"
      using processPage_visited [of e "sc\<lparr>queue := rest, visited := visited sc @ [currentUrl]\<rparr>" currentUrl]
      by (simp add: p)
    have m: "maxPages sc2 = maxPages sc"
      using processPage_maxPages [of e "sc\<lparr>queue := rest, visited := visited sc @ [currentUrl]\<rparr>" currentUrl]
      by (simp add: p)
    from assms have "int (length (visited sc)) < maxPages sc"
      by (simp add: loop_cond_def)
    with Cons False p v m show ?thesis
      by (simp add: loop_body_def loop_measure_def)
  qed
qed

function run_loop :: "env \<Rightarrow> scanner \<times> vulnerability list \<Rightarrow> scanner \<times> vulnerability list" where
  "run_loop e st = (if loop_cond (fst st) then run_loop e (loop_body e st) else st)"
  by pat_completeness auto
termination
proof (relation "inv_image (less_than <*lex*> less_than) (\<lambda>(e, st). loop_measure (fst st))")
  show "wf (inv_image (less_than <*lex*> less_than) (\<lambda>(e, st). loop_measure (fst st)))"
    by (intro wf_inv_image wf_lex_prod wf_less_than)
next
  fix e :: env and st :: "scanner \<times> vulnerability list"
  assume c: "loop_cond (fst st)"
  obtain sc vulns where st: "st = (sc, vulns)" by (cases st)
  from c st loop_body_decreases [of sc e vulns]
  show "((e, loop_body e st), (e, st))
          \<in> inv_image (less_than <*lex*> less_than) (\<lambda>(e, st). loop_measure (fst st))"
    by simp
qed

declare run_loop.simps [simp del]

text \<open>The coercion of the page budget at the start of \<open>run\<close>.\<close>

definition run_init :: "scanner \<Rightarrow> scanner" where
  "run_init sc = (if maxPages sc \<le> 0 then sc\<lparr>maxPages := 1\<rparr> else sc)"

definition run :: "env \<Rightarrow> scanner \<Rightarrow> scan_result" where
  "run e sc =
     (case run_loop e (run_init sc, []) of
        (sc', vulns) \<Rightarrow>
          \<lparr> scannedUrls = visited sc',
            vulnerabilities = vulns,
            summary = calculateSummary vulns \<rparr>)"

definition runScan :: "env \<Rightarrow> scan_options \<Rightarrow> thrown + scan_result" where
  "runScan e opts =
     (case Scanner_new e opts of
        Inl err \<Rightarrow> Inl err
      | Inr sc \<Rightarrow> Inr (run e sc))"

subsection \<open>Observations on a scan\<close>

text \<open>The findings that the iteration visiting \<open>u\<close> pushes.\<close>

definition pageFindings :: "env \<Rightarrow> scanner \<Rightarrow> string \<Rightarrow> vulnerability list" where
  "pageFindings e sc u = snd (processPage e sc u)"

text \<open>
  A rule fires on a text when it is enabled and its pattern, compiled with the flag
  \<open>i\<close>, matches there.
\<close>

definition ruleFires :: "env \<Rightarrow> string \<Rightarrow> custom_rule \<Rightarrow> bool" where
  "ruleFires e content rule \<longleftrightarrow>
     rule_enabled rule \<and> regexTest e (rule_pattern rule) ''i'' content = Inr True"


text \<open>
  The URLs that one iteration pushes onto the frontier: an iteration shifts one URL off
  the front and \<open>extractLinks\<close> only appends, so they are what stands in the queue
  behind its former tail (\<open>pushed_suffix\<close> below). \<open>enqueued\<close> collects them over
  all the iterations that the loop runs from a state, in the order of the pushes.
\<close>

definition pushed :: "env \<Rightarrow> scanner \<times> vulnerability list \<Rightarrow> string list" where
  "pushed e st = drop (length (queue (fst st)) - 1) (queue (fst (loop_body e st)))"

function enqueued :: "env \<Rightarrow> scanner \<times> vulnerability list \<Rightarrow> string list" where
  "enqueued e st = (if loop_cond (fst st) then pushed e st @ enqueued e (loop_body e st) else [])"
  by pat_completeness auto
termination
proof (relation "inv_image (less_than <*lex*> less_than) (\<lambda>(e, st). loop_measure (fst st))")
  show "wf (inv_image (less_than <*lex*> less_than) (\<lambda>(e, st). loop_measure (fst st)))"
    by (intro wf_inv_image wf_lex_prod wf_less_than)
next
  fix e :: env and st :: "scanner \<times> vulnerability list"
  assume c: "loop_cond (fst st)"
  obtain sc vulns where st: "st = (sc, vulns)" by (cases st)
  from c st loop_body_decreases [of sc e vulns]
  show "((e, loop_body e st), (e, st))
          \<in> inv_image (less_than <*lex*> less_than) (\<lambda>(e, st). loop_measure (fst st))"
    by simp
qed

declare enqueued.simps [simp del]

text \<open>
  A thrown pattern read as a pattern that does not match: the environment in which
  \<open>new RegExp(p, flags).test(c)\<close> never throws and is \<open>false\<close> where it threw.
\<close>

definition quietRegex :: "env \<Rightarrow> env" where
  "quietRegex e =
     e\<lparr>regexTest := (\<lambda>p flags c. case regexTest e p flags c of
                                       Inl err \<Rightarrow> Inr False
                                     | Inr m \<Rightarrow> Inr m)\<rparr>"

text \<open>The fields of a scanner that the loop never assigns, and the loop invariant.\<close>

definition same_config :: "scanner \<Rightarrow> scanner \<Rightarrow> bool" where
  "same_config sc sc' \<longleftrightarrow>
     maxPages sc' = maxPages sc \<and> baseUrl sc' = baseUrl sc
     \<and> sc_customRules sc' = sc_customRules sc \<and> sc_scanLevel sc' = sc_scanLevel sc
     \<and> sc_options sc' = sc_options sc"

definition crawl_inv :: "env \<Rightarrow> scanner \<Rightarrow> string \<Rightarrow> scanner \<times> vulnerability list \<Rightarrow> bool" where
  "crawl_inv e sc0 seed s \<longleftrightarrow>
     same_config sc0 (fst s)
     \<and> distinct (visited (fst s) @ queue (fst s))
     \<and> int (length (visited (fst s))) \<le> maxPages sc0
     \<and> snd s = concat (map (pageFindings e sc0) (visited (fst s)))
     \<and> (\<forall>x \<in> set (visited (fst s) @ queue (fst s)). x = seed \<or> prefix (baseUrl sc0) x)
     \<and> take 1 (visited (fst s) @ queue (fst s)) = [seed]"

subsection \<open>An example site\<close>

text \<open>
  A small environment on which the theorems below are instantiated. The target is
  \<open>http://example.com\<close>. Its page has the body \<open>home\<close> and four anchors: \<open>/a\<close>, a
  \<open>mailto:\<close> address, \<open>http://example.com.evil.com/\<close> and \<open>/a\<close> again. The fetch
  of \<open>http://example.com/a\<close> times out; every other page has the body \<open>evil\<close> and no
  anchor. The URL parser and the resolver are given at the URLs of the site, with the
  values that the WHATWG parser has there; \<open>mailto:a@b.c\<close> is a URL of protocol
  \<open>mailto:\<close> whose host is the empty string, and axios refuses to fetch it. The
  built-in detector reports nothing. The pattern \<open>(\<close> does not compile; bodies and
  patterns being single words in lower case, a pattern matches the body equal to it,
  whatever the flags.
\<close>

definition demo_rule :: custom_rule where
  "demo_rule =
     \<lparr> rule_id = 7, rule_name = ''Home marker'', rule_description = ''The word home'',
       rule_category = ''Content'', rule_pattern = ''home'', rule_severity = ''safe'',
       rule_enabled = True \<rparr>"

definition demo_bad_rule :: custom_rule where
  "demo_bad_rule =
     \<lparr> rule_id = 3, rule_name = ''Broken'', rule_description = ''An unterminated group'',
       rule_category = ''Content'', rule_pattern = ''('', rule_severity = ''high'',
       rule_enabled = True \<rparr>"

definition demo_access_error :: vulnerability where
  "demo_access_error = accessError ''http://example.com/a'' ''timeout of 15000ms exceeded''"

definition demo_safe_finding :: vulnerability where
  "demo_safe_finding = ruleFinding ''http://example.com'' demo_rule"

definition demo_env :: env where
  "demo_env =
     \<lparr> parseUrl = (\<lambda>s.
         if s = ''http://example.com'' then Some (''http:'', ''example.com'')
         else if s = ''http://example.com/a'' then Some (''http:'', ''example.com'')
         else if s = ''http://example.com.evil.com/'' then Some (''http:'', ''example.com.evil.com'')
         else if s = ''mailto:a@b.c'' then Some (''mailto:'', [])
         else None),
       resolveUrl = (\<lambda>link base.
         if link = ''/a'' then Some ''http://example.com/a''
         else if link = ''http://example.com.evil.com/'' then Some ''http://example.com.evil.com/''
         else None),
       httpGet = (\<lambda>u.
         if u = ''http://example.com''
         then Inr \<lparr> resp_status = 200, resp_headers = [], resp_data = ''home'' \<rparr>
         else if u = ''http://example.com/a''
         then Inl (Thrown (Some ''timeout of 15000ms exceeded''))
         else if u = ''mailto:a@b.c''
         then Inl (Thrown (Some ''Unsupported protocol mailto:''))
         else Inr \<lparr> resp_status = 200, resp_headers = [], resp_data = ''evil'' \<rparr>),
       detectVulnerabilities = (\<lambda>u resp level. Inr []),
       anchorHrefs = (\<lambda>html.
         if html = ''home''
         then Inr [''/a'', ''mailto:admin@example.com'', ''http://example.com.evil.com/'', ''/a'']
         else Inr []),
       regexTest = (\<lambda>p flags content.
         if p = ''('' then Inl (Thrown (Some ''Invalid regular expression: /(/: Unterminated group''))
         else Inr (p = content)) \<rparr>"

definition demo_options :: scan_options where
  "demo_options =
     \<lparr> url = ''http://example.com'', scanLevel = ''standard'', crawlLimit = 5,
       useAuthentication = False, includeCustomRules = True,
       customRules = Some [demo_bad_rule, demo_rule] \<rparr>"

text \<open>The scanner that the constructor builds from \<open>demo_options\<close>.\<close>

definition demo_scanner :: scanner where
  "demo_scanner =
     \<lparr> visited = [], queue = [''http://example.com''], maxPages = 5,
       baseUrl = ''http://example.com'', sc_customRules = [demo_bad_rule, demo_rule],
       sc_scanLevel = ''standard'', sc_options = demo_options \<rparr>"

text \<open>The same site, scanned while the built-in detector throws on every page.\<close>

definition demo_env_detector_down :: env where
  "demo_env_detector_down =
     demo_env\<lparr>detectVulnerabilities :=
                (\<lambda>u resp level. Inl (Thrown (Some ''detector failed'')))\<rparr>"

lemmas demo_defs =
  demo_env_def demo_options_def demo_scanner_def demo_rule_def demo_bad_rule_def
  demo_access_error_def demo_safe_finding_def demo_env_detector_down_def

lemmas scan_defs =
  runScan_def Scanner_new_def run_def run_init_def loop_cond_def loop_body_def
  processPage_def extractLinks_def checkCustomRules_def errorMessage_def
  calculateSummary_def ruleFinding_def accessError_def Let_def

section \<open>Properties\<close>

subsection \<open>The example scan\<close>

lemma demo_Scanner_new: "Scanner_new demo_env demo_options = Inr demo_scanner"
  by (simp add: Scanner_new_def demo_defs)

lemma demo_run:
  "runScan demo_env demo_options =
     Inr \<lparr> scannedUrls = [''http://example.com'', ''http://example.com/a'',
                          ''http://example.com.evil.com/''],
           vulnerabilities = [demo_safe_finding, demo_access_error],
           summary = \<lparr> totalVulnerabilities = 2, highSeverity = 0, mediumSeverity = 0,
                       lowSeverity = 1, securityScore = 98 \<rparr> \<rparr>"
  by (simp add: scan_defs run_loop.simps demo_defs)

subsection \<open>Custom rules\<close>

lemma checkCustomRules_loop_filter:
  "checkCustomRules_loop e rules u content acc
     = acc @ map (ruleFinding u) (filter (ruleFires e content) rules)"
  by (induction rules arbitrary: acc) (auto simp: ruleFires_def split: sum.splits)

lemma checkCustomRules_filter:
  "checkCustomRules e sc u content
     = map (ruleFinding u) (filter (ruleFires e content) (sc_customRules sc))"
  by (simp add: checkCustomRules_def checkCustomRules_loop_filter)

subsection \<open>Link extraction and one iteration\<close>

lemma extractLinks_loop_pushes:
  "\<exists>new. extractLinks_loop e pageUrl links sc = sc\<lparr>queue := queue sc @ new\<rparr>
         \<and> distinct new
         \<and> set new \<inter> set (visited sc) = {}
         \<and> set new \<inter> set (queue sc) = {}
         \<and> (\<forall>x \<in> set new. prefix (baseUrl sc) x)"
proof (induction links arbitrary: sc)
  case Nil
  show ?case by (rule exI [of _ "[]"]) simp
next
  case (Cons link links)
  show ?case
  proof (cases "extractLinks_loop e pageUrl (link # links) sc = extractLinks_loop e pageUrl links sc")
    case True
    with Cons.IH [of sc] show ?thesis by simp
  next
    case False
    then obtain a where a: "resolveUrl e link pageUrl = Some a"
      "prefix (baseUrl sc) a" "a \<notin> set (visited sc)" "a \<notin> set (queue sc)"
      and eq: "extractLinks_loop e pageUrl (link # links) sc
               = extractLinks_loop e pageUrl links (sc\<lparr>queue := queue sc @ [a]\<rparr>)"
      by (auto split: if_splits option.splits)
    from Cons.IH [of "sc\<lparr>queue := queue sc @ [a]\<rparr>"]
    obtain new where new:
      "extractLinks_loop e pageUrl links (sc\<lparr>queue := queue sc @ [a]\<rparr>)
         = sc\<lparr>queue := queue sc @ [a] @ new\<rparr>"
      "distinct new" "set new \<inter> set (visited sc) = {}"
      "set new \<inter> set (queue sc @ [a]) = {}"
      "\<forall>x \<in> set new. prefix (baseUrl sc) x"
      by auto
    show ?thesis
    proof (intro exI [of _ "a # new"] conjI)
      show "extractLinks_loop e pageUrl (link # links) sc = sc\<lparr>queue := queue sc @ a # new\<rparr>"
        using eq new(1) by simp
      show "distinct (a # new)" using new(2,4) by auto
      show "set (a # new) \<inter> set (visited sc) = {}" using new(3) a(3) by auto
      show "set (a # new) \<inter> set (queue sc) = {}" using new(4) a(4) by auto
      show "\<forall>x \<in> set (a # new). prefix (baseUrl sc) x" using new(5) a(2) by auto
    qed
  qed
qed

lemma processPage_pushes:
  "\<exists>new. processPage e sc u = (sc\<lparr>queue := queue sc @ new\<rparr>, pageFindings e sc u)
         \<and> distinct new
         \<and> set new \<inter> set (visited sc) = {}
         \<and> set new \<inter> set (queue sc) = {}
         \<and> (\<forall>x \<in> set new. prefix (baseUrl sc) x)
         \<and> (sc_scanLevel sc = ''quick'' \<longrightarrow> new = [])
         \<and> (\<forall>err. httpGet e u = Inl err \<longrightarrow> new = [])"
proof (cases "\<exists>resp detected. httpGet e u = Inr resp
          \<and> detectVulnerabilities e u resp (sc_scanLevel sc) = Inr detected
          \<and> sc_scanLevel sc \<noteq> ''quick''
          \<and> \<not> isl (anchorHrefs e (resp_data resp))")
  case True
  then obtain resp detected links where h: "httpGet e u = Inr resp"
    "detectVulnerabilities e u resp (sc_scanLevel sc) = Inr detected"
    "sc_scanLevel sc \<noteq> ''quick''" "anchorHrefs e (resp_data resp) = Inr links"
    by (metis sum.collapse(2))
  from extractLinks_loop_pushes [of e u links sc] obtain new where
    new: "extractLinks_loop e u links sc = sc\<lparr>queue := queue sc @ new\<rparr>"
      "distinct new" "set new \<inter> set (visited sc) = {}" "set new \<inter> set (queue sc) = {}"
      "\<forall>x \<in> set new. prefix (baseUrl sc) x"
    by blast
  show ?thesis
    apply (rule exI [of _ new])
    using h new by (simp add: processPage_def pageFindings_def extractLinks_def Let_def)
next
  case False
  then have "processPage e sc u = (sc, pageFindings e sc u)"
    by (auto simp: processPage_def pageFindings_def extractLinks_def Let_def isl_def split: sum.splits)
  then show ?thesis
    by (intro exI [of _ "[]"]) simp
qed

lemma pageFindings_cong:
  assumes "sc_customRules sc' = sc_customRules sc" and "sc_scanLevel sc' = sc_scanLevel sc"
    and "sc_options sc' = sc_options sc"
  shows "pageFindings e sc' u = pageFindings e sc u"
  using assms
  by (simp add: pageFindings_def processPage_def checkCustomRules_def Let_def split: sum.splits)

lemma loop_body_skip:
  assumes "queue sc = u # rest" and "u \<in> set (visited sc)"
  shows "loop_body e (sc, vulns) = (sc\<lparr>queue := rest\<rparr>, vulns)"
  using assms by (simp add: loop_body_def)

lemma loop_body_visit:
  assumes q: "queue sc = u # rest" and u: "u \<notin> set (visited sc)"
  shows "\<exists>new. loop_body e (sc, vulns)
               = (sc\<lparr>visited := visited sc @ [u], queue := rest @ new\<rparr>,
                  vulns @ pageFindings e sc u)
         \<and> distinct new
         \<and> set new \<inter> set (visited sc @ [u]) = {}
         \<and> set new \<inter> set rest = {}
         \<and> (\<forall>x \<in> set new. prefix (baseUrl sc) x)
         \<and> (sc_scanLevel sc = ''quick'' \<longrightarrow> new = [])
         \<and> (\<forall>err. httpGet e u = Inl err \<longrightarrow> new = [])"
proof -
  let ?sc1 = "sc\<lparr>queue := rest, visited := visited sc @ [u]\<rparr>"
  from processPage_pushes [of e ?sc1 u] obtain new where
    new: "processPage e ?sc1 u = (?sc1\<lparr>queue := queue ?sc1 @ new\<rparr>, pageFindings e ?sc1 u)"
      "distinct new" "set new \<inter> set (visited ?sc1) = {}" "set new \<inter> set (queue ?sc1) = {}"
      "\<forall>x \<in> set new. prefix (baseUrl ?sc1) x"
      "sc_scanLevel ?sc1 = ''quick'' \<longrightarrow> new = []"
      "\<forall>err. httpGet e u = Inl err \<longrightarrow> new = []"
    by blast
  have pf: "pageFindings e ?sc1 u = pageFindings e sc u"
    by (rule pageFindings_cong) simp_all
  show ?thesis
    apply (rule exI [of _ new])
    using q u new pf by (simp add: loop_body_def)
qed

lemma pushed_suffix:
  assumes "loop_cond (fst st)"
  shows "queue (fst (loop_body e st)) = tl (queue (fst st)) @ pushed e st"
proof -
  obtain sc vulns where st: "st = (sc, vulns)" by (cases st)
  from assms st obtain u rest where q: "queue sc = u # rest"
    by (auto simp: loop_cond_def neq_Nil_conv)
  show ?thesis
  proof (cases "u \<in> set (visited sc)")
    case True
    from loop_body_skip [OF q True, of e vulns] show ?thesis
      by (simp add: pushed_def st q)
  next
    case False
    from loop_body_visit [OF q False, of e vulns] obtain new where
      "loop_body e (sc, vulns)
         = (sc\<lparr>visited := visited sc @ [u], queue := rest @ new\<rparr>, vulns @ pageFindings e sc u)"
      by blast
    then show ?thesis
      by (simp add: pushed_def st q)
  qed
qed

subsection \<open>The loop\<close>

text \<open>The rule of the \<open>while\<close> loop: an invariant of the body holds when the loop ends.\<close>

lemma run_loop_invariant:
  assumes "I st"
    and "\<And>s. I s \<Longrightarrow> loop_cond (fst s) \<Longrightarrow> I (loop_body e s)"
  shows "I (run_loop e st) \<and> \<not> loop_cond (fst (run_loop e st))"
  using assms
proof (induction e st rule: run_loop.induct)
  case (1 e st)
  show ?case
  proof (cases "loop_cond (fst st)")
    case True
    then have "I (loop_body e st)" using "1.prems" by blast
    with True "1.IH" "1.prems"(2) show ?thesis by (simp add: run_loop.simps [of e st])
  next
    case False
    with "1.prems"(1) show ?thesis by (simp add: run_loop.simps [of e st])
  qed
qed

lemma crawl_inv_step:
  assumes inv: "crawl_inv e sc0 seed s" and c: "loop_cond (fst s)"
  shows "crawl_inv e sc0 seed (loop_body e s)"
proof -
  obtain sc vulns where s: "s = (sc, vulns)" by (cases s)
  from c s obtain u rest where q: "queue sc = u # rest"
    by (auto simp: loop_cond_def neq_Nil_conv)
  from inv s q have u: "u \<notin> set (visited sc)"
    by (simp add: crawl_inv_def)
  from loop_body_visit [OF q u, of e vulns] obtain new where
    new: "loop_body e (sc, vulns)
            = (sc\<lparr>visited := visited sc @ [u], queue := rest @ new\<rparr>, vulns @ pageFindings e sc u)"
      "distinct new" "set new \<inter> set (visited sc @ [u]) = {}" "set new \<inter> set rest = {}"
      "\<forall>x \<in> set new. prefix (baseUrl sc) x"
    by blast
  from inv s have cfg: "same_config sc0 sc" by (simp add: crawl_inv_def)
  then have b: "baseUrl sc = baseUrl sc0" and m: "maxPages sc = maxPages sc0"
    by (simp_all add: same_config_def)
  have pf: "pageFindings e sc u = pageFindings e sc0 u"
    using cfg by (intro pageFindings_cong) (simp_all add: same_config_def)
  have 1: "same_config sc0 (sc\<lparr>visited := visited sc @ [u], queue := rest @ new\<rparr>)"
    using cfg by (simp add: same_config_def)
  have 2: "distinct ((visited sc @ [u]) @ rest @ new)"
    using inv s q new(2,3,4) by (auto simp: crawl_inv_def)
  have 3: "int (length (visited sc @ [u])) \<le> maxPages sc0"
    using c s m by (simp add: loop_cond_def)
  have 4: "vulns @ pageFindings e sc u = concat (map (pageFindings e sc0) (visited sc @ [u]))"
    using inv s pf by (simp add: crawl_inv_def)
  have 5: "\<forall>x \<in> set ((visited sc @ [u]) @ rest @ new). x = seed \<or> prefix (baseUrl sc0) x"
    using inv s q new(5) b by (auto simp: crawl_inv_def)
  have 6: "take 1 ((visited sc @ [u]) @ rest @ new) = [seed]"
    using inv s q by (cases "visited sc") (simp_all add: crawl_inv_def)
  from 1 2 3 4 5 6 show ?thesis
    by (simp add: s new(1) crawl_inv_def)
qed

lemma crawl_inv_run_loop:
  assumes "crawl_inv e sc0 seed s"
  shows "crawl_inv e sc0 seed (run_loop e s)"
  using run_loop_invariant [of "crawl_inv e sc0 seed" s e] assms crawl_inv_step by blast

lemma crawl_inv_init:
  assumes "Scanner_new e opts = Inr sc"
  shows "crawl_inv e (run_init sc) (url opts) (run_init sc, [])"
    and "maxPages (run_init sc) = max 1 (crawlLimit opts)"
    and "queue (run_init sc) = [url opts]" and "visited (run_init sc) = []"
    and "sc_scanLevel (run_init sc) = scanLevel opts"
    and "sc_options (run_init sc) = opts"
  using assms
  by (auto simp: Scanner_new_def run_init_def crawl_inv_def same_config_def
           split: option.splits)

lemma enqueued_fresh:
  assumes "crawl_inv e sc0 seed s"
  shows "distinct (enqueued e s)
         \<and> set (enqueued e s) \<inter> set (visited (fst s) @ queue (fst s)) = {}
         \<and> (\<forall>x \<in> set (enqueued e s). prefix (baseUrl sc0) x)
         \<and> (sc_scanLevel sc0 = ''quick'' \<longrightarrow> enqueued e s = [])"
  using assms
proof (induction e s rule: enqueued.induct)
  case (1 e s)
  show ?case
  proof (cases "loop_cond (fst s)")
    case False
    then show ?thesis by (simp add: enqueued.simps [of e s])
  next
    case True
    obtain sc vulns where s: "s = (sc, vulns)" by (cases s)
    from True s obtain u rest where q: "queue sc = u # rest"
      by (auto simp: loop_cond_def neq_Nil_conv)
    from "1.prems" s q have u: "u \<notin> set (visited sc)"
      by (simp add: crawl_inv_def)
    from "1.prems" s have cfg: "baseUrl sc = baseUrl sc0" "sc_scanLevel sc = sc_scanLevel sc0"
      by (simp_all add: crawl_inv_def same_config_def)
    from loop_body_visit [OF q u, of e vulns] obtain new where
      new: "loop_body e (sc, vulns)
              = (sc\<lparr>visited := visited sc @ [u], queue := rest @ new\<rparr>, vulns @ pageFindings e sc u)"
        "distinct new" "set new \<inter> set (visited sc @ [u]) = {}" "set new \<inter> set rest = {}"
        "\<forall>x \<in> set new. prefix (baseUrl sc) x"
        "sc_scanLevel sc = ''quick'' \<longrightarrow> new = []"
      by blast
    have p: "pushed e s = new"
      by (simp add: pushed_def s q new(1))
    have inv': "crawl_inv e sc0 seed (loop_body e s)"
      using "1.prems" True by (rule crawl_inv_step)
    from "1.IH" [OF True inv'] have ih:
      "distinct (enqueued e (loop_body e s))"
      "set (enqueued e (loop_body e s)) \<inter> set ((visited sc @ [u]) @ rest @ new) = {}"
      "\<forall>x \<in> set (enqueued e (loop_body e s)). prefix (baseUrl sc0) x"
      "sc_scanLevel sc0 = ''quick'' \<longrightarrow> enqueued e (loop_body e s) = []"
      by (simp_all add: s new(1))
    have eq: "enqueued e s = new @ enqueued e (loop_body e s)"
      using True p by (simp add: enqueued.simps [of e s])
    have a: "distinct (new @ enqueued e (loop_body e s))"
      using new(2) ih(1,2) by auto
    have b: "set (new @ enqueued e (loop_body e s)) \<inter> set (visited sc @ u # rest) = {}"
      using new(3,4) ih(2) by auto
    have c: "\<forall>x \<in> set (new @ enqueued e (loop_body e s)). prefix (baseUrl sc0) x"
      using new(5) ih(3) cfg(1) by auto
    have d: "sc_scanLevel sc0 = ''quick'' \<longrightarrow> new @ enqueued e (loop_body e s) = []"
      using new(6) ih(4) cfg(2) by simp
    from a b c d show ?thesis
      unfolding eq by (simp add: s q)
  qed
qed

subsection \<open>Whole scans\<close>

lemma run_final:
  assumes n: "Scanner_new e opts = Inr sc"
  obtains sc' where "run_loop e (run_init sc, []) = (sc', vulnerabilities (run e sc))"
    and "scannedUrls (run e sc) = visited sc'"
    and "crawl_inv e (run_init sc) (url opts) (sc', vulnerabilities (run e sc))"
    and "\<not> loop_cond sc'"
proof -
  obtain sc' vulns where r: "run_loop e (run_init sc, []) = (sc', vulns)"
    by (cases "run_loop e (run_init sc, [])")
  have "crawl_inv e (run_init sc) (url opts) (run_loop e (run_init sc, []))"
    using crawl_inv_init(1) [OF n] by (rule crawl_inv_run_loop)
  moreover have "\<not> loop_cond (fst (run_loop e (run_init sc, [])))"
    using run_loop_invariant [of "\<lambda>s. True" "(run_init sc, [])" e] by simp
  ultimately show ?thesis
    using that [of sc'] r by (simp add: run_def)
qed

lemma run_scannedUrls:
  assumes n: "Scanner_new e opts = Inr sc"
  shows "distinct (scannedUrls (run e sc))"
    and "int (length (scannedUrls (run e sc))) \<le> max 1 (crawlLimit opts)"
    and "take 1 (scannedUrls (run e sc)) = [url opts]"
    and "vulnerabilities (run e sc) = concat (map (pageFindings e sc) (scannedUrls (run e sc)))"
    and "\<forall>x \<in> set (scannedUrls (run e sc)). x = url opts \<or> prefix (baseUrl sc) x"
proof -
  from run_final [OF n] obtain sc' where
    r: "scannedUrls (run e sc) = visited sc'"
    and inv: "crawl_inv e (run_init sc) (url opts) (sc', vulnerabilities (run e sc))"
    and stop: "\<not> loop_cond sc'"
    by blast
  from inv have cfg: "maxPages sc' = max 1 (crawlLimit opts)"
    using crawl_inv_init(2) [OF n] by (simp add: crawl_inv_def same_config_def)
  show "distinct (scannedUrls (run e sc))"
    using inv r by (simp add: crawl_inv_def)
  show "int (length (scannedUrls (run e sc))) \<le> max 1 (crawlLimit opts)"
    using inv r crawl_inv_init(2) [OF n] by (simp add: crawl_inv_def)
  have t: "take 1 (visited sc' @ queue sc') = [url opts]"
    using inv by (simp add: crawl_inv_def)
  have "visited sc' \<noteq> []"
  proof (cases "queue sc'")
    case Nil
    with t show ?thesis by auto
  next
    case (Cons a q)
    with stop cfg have "1 \<le> int (length (visited sc'))"
      by (simp add: loop_cond_def)
    then show ?thesis by auto
  qed
  with t show "take 1 (scannedUrls (run e sc)) = [url opts]"
    by (cases "visited sc'") (simp_all add: r)
  have pf: "pageFindings e (run_init sc) = pageFindings e sc"
    by (intro ext pageFindings_cong) (simp_all add: run_init_def)
  show "vulnerabilities (run e sc) = concat (map (pageFindings e sc) (scannedUrls (run e sc)))"
    using inv r pf by (simp add: crawl_inv_def)
  have "baseUrl (run_init sc) = baseUrl sc" by (simp add: run_init_def)
  then show "\<forall>x \<in> set (scannedUrls (run e sc)). x = url opts \<or> prefix (baseUrl sc) x"
    using inv r by (simp add: crawl_inv_def)
qed

lemma run_single:
  assumes n: "Scanner_new e opts = Inr sc"
    and one: "scanLevel opts = ''quick'' \<or> (\<exists>err. httpGet e (url opts) = Inl err)"
  shows "run e sc = \<lparr> scannedUrls = [url opts],
                     vulnerabilities = pageFindings e sc (url opts),
                     summary = calculateSummary (pageFindings e sc (url opts)) \<rparr>"
proof -
  let ?sc0 = "run_init sc"
  note i = crawl_inv_init [OF n]
  have c: "loop_cond ?sc0"
    using i(2,3,4) by (simp add: loop_cond_def)
  from loop_body_visit [of ?sc0 "url opts" "[]" e "[]"] i(3,4) obtain new where
    new: "loop_body e (?sc0, [])
            = (?sc0\<lparr>visited := visited ?sc0 @ [url opts], queue := [] @ new\<rparr>,
               [] @ pageFindings e ?sc0 (url opts))"
      "sc_scanLevel ?sc0 = ''quick'' \<longrightarrow> new = []"
      "\<forall>err. httpGet e (url opts) = Inl err \<longrightarrow> new = []"
    by auto
  from one new(2,3) i(5) have e: "new = []" by auto
  have pf: "pageFindings e ?sc0 (url opts) = pageFindings e sc (url opts)"
    by (rule pageFindings_cong) (simp_all add: run_init_def)
  let ?s1 = "(?sc0\<lparr>visited := [url opts], queue := []\<rparr>, pageFindings e sc (url opts))"
  have b: "loop_body e (?sc0, []) = ?s1"
    using new(1) e pf i(4) by simp
  have "run_loop e (?sc0, []) = run_loop e ?s1"
    using c b by (simp add: run_loop.simps [of e "(?sc0, [])"])
  also have "\<dots> = ?s1"
    by (simp add: run_loop.simps [of e ?s1] loop_cond_def)
  finally show ?thesis
    by (simp add: run_def)
qed

lemma Scanner_new_env:
  "parseUrl e' = parseUrl e \<Longrightarrow> Scanner_new e' opts = Scanner_new e opts"
  by (simp add: Scanner_new_def)

lemma checkCustomRules_env:
  assumes "\<And>p c. regexTest e' p ''i'' c = Inr True \<longleftrightarrow> regexTest e p ''i'' c = Inr True"
  shows "checkCustomRules e' sc u content = checkCustomRules e sc u content"
proof -
  have "ruleFires e' content = ruleFires e content"
    using assms by (auto simp: ruleFires_def fun_eq_iff)
  then show ?thesis by (simp add: checkCustomRules_filter)
qed

lemma extractLinks_loop_env:
  assumes "resolveUrl e' = resolveUrl e"
  shows "extractLinks_loop e' pageUrl links sc = extractLinks_loop e pageUrl links sc"
  using assms by (induction links arbitrary: sc) (simp_all split: option.splits)

lemma processPage_quietRegex: "processPage (quietRegex e) sc u = processPage e sc u"
proof -
  have r: "\<And>p c. regexTest (quietRegex e) p ''i'' c = Inr True
                  \<longleftrightarrow> regexTest e p ''i'' c = Inr True"
    by (simp add: quietRegex_def split: sum.splits)
  have x: "\<And>pageUrl links. extractLinks_loop (quietRegex e) pageUrl links sc
             = extractLinks_loop e pageUrl links sc"
    by (rule extractLinks_loop_env) (simp add: quietRegex_def)
  have f: "httpGet (quietRegex e) = httpGet e"
    "detectVulnerabilities (quietRegex e) = detectVulnerabilities e"
    "anchorHrefs (quietRegex e) = anchorHrefs e"
    by (simp_all add: quietRegex_def)
  show ?thesis
    unfolding processPage_def extractLinks_def f x checkCustomRules_env [OF r]
    by (rule refl)
qed

lemma run_loop_cong:
  assumes "\<And>s. loop_body e' s = loop_body e s"
  shows "run_loop e' st = run_loop e st"
  using assms
proof (induction e st rule: run_loop.induct)
  case (1 e st)
  show ?case
  proof (cases "loop_cond (fst st)")
    case True
    with "1.IH" [OF True "1.prems"] "1.prems" show ?thesis
      by (simp add: run_loop.simps [of e st] run_loop.simps [of e' st])
  next
    case False
    then show ?thesis
      by (simp add: run_loop.simps [of e st] run_loop.simps [of e' st])
  qed
qed

lemma runScan_quietRegex: "runScan (quietRegex e) opts = runScan e opts"
proof -
  have b: "\<And>s. loop_body (quietRegex e) s = loop_body e s"
    unfolding loop_body_def processPage_quietRegex by (rule refl)
  have r: "\<And>sc. run (quietRegex e) sc = run e sc"
    by (simp add: run_def run_loop_cong [OF b])
  have n: "Scanner_new (quietRegex e) opts = Scanner_new e opts"
    by (rule Scanner_new_env) (simp add: quietRegex_def)
  show ?thesis unfolding runScan_def n r by (rule refl)
qed

lemma demo_run_zero:
  "runScan demo_env (demo_options\<lparr>crawlLimit := 0\<rparr>) =
     Inr \<lparr> scannedUrls = [''http://example.com''],
           vulnerabilities = [demo_safe_finding],
           summary = \<lparr> totalVulnerabilities = 1, highSeverity = 0, mediumSeverity = 0,
                       lowSeverity = 0, securityScore = 100 \<rparr> \<rparr>"
  by (simp add: scan_defs run_loop.simps demo_defs)






subsection \<open>The frontier\<close>

text \<open>
  C1. The claim is that every URL that link extraction puts on the frontier has the scheme
  and the host of the target, so that no page of another origin is ever enqueued or
  fetched. The guard of \<open>extractLinks\<close>, under the comment
  \<open>Only follow links to the same domain\<close>, is
  \<open>absoluteUrl.startsWith(this.baseUrl)\<close>: a test on the characters of the URL, which
  \<open>http://example.com.evil.com/\<close> passes for the base \<open>http://example.com\<close>.
  The theorem runs the scan of \<open>http://example.com\<close> on the example site: link
  extraction pushes \<open>http://example.com/a\<close> and \<open>http://example.com.evil.com/\<close>,
  the scan visits both, and the host of the second is \<open>example.com.evil.com\<close> while
  that of the target is \<open>example.com\<close>. What the guard does ensure is in
  \<open>run_scannedUrls\<close> above: every visited URL other than the target starts with the
  characters of \<open>baseUrl\<close>.
\<close>

theorem C1_cross_origin_visited:
  "runScan demo_env demo_options =
     Inr \<lparr> scannedUrls = [''http://example.com'', ''http://example.com/a'',
                          ''http://example.com.evil.com/''],
           vulnerabilities = [demo_safe_finding, demo_access_error],
           summary = \<lparr> totalVulnerabilities = 2, highSeverity = 0, mediumSeverity = 0,
                       lowSeverity = 1, securityScore = 98 \<rparr> \<rparr>
   \<and> enqueued demo_env (run_init demo_scanner, [])
       = [''http://example.com/a'', ''http://example.com.evil.com/'']
   \<and> parseUrl demo_env (url demo_options) = Some (''http:'', ''example.com'')
   \<and> parseUrl demo_env ''http://example.com.evil.com/'' = Some (''http:'', ''example.com.evil.com'')"
proof -
  have "enqueued demo_env (run_init demo_scanner, [])
       = [''http://example.com/a'', ''http://example.com.evil.com/'']"
    by (simp add: enqueued.simps pushed_def scan_defs demo_defs)
  moreover have "parseUrl demo_env (url demo_options) = Some (''http:'', ''example.com'')"
    "parseUrl demo_env ''http://example.com.evil.com/'' = Some (''http:'', ''example.com.evil.com'')"
    by (simp_all add: demo_env_def demo_options_def)
  ultimately show ?thesis using demo_run by simp
qed

text \<open>
  C2. A completed scan has visited at most \<open>max 1 crawlLimit\<close> URLs, all different;
  the target is among them, and when \<open>crawlLimit \<le> 0\<close> the target is the one URL
  visited.
\<close>

theorem C2_page_budget:
  assumes "runScan e opts = Inr res"
  shows "int (length (scannedUrls res)) \<le> max 1 (crawlLimit opts)
         \<and> distinct (scannedUrls res)
         \<and> url opts \<in> set (scannedUrls res)
         \<and> (crawlLimit opts \<le> 0 \<longrightarrow> scannedUrls res = [url opts])"
proof -
  from assms obtain sc where n: "Scanner_new e opts = Inr sc" and res: "res = run e sc"
    by (auto simp: runScan_def split: sum.splits)
  note f = run_scannedUrls [OF n]
  have seed: "url opts \<in> set (scannedUrls res)"
    using f(3) res by (cases "scannedUrls res") simp_all
  have one: "scannedUrls res = [url opts]" if "crawlLimit opts \<le> 0"
  proof -
    from that f(2) res have "length (scannedUrls res) \<le> 1" by simp
    with f(3) res show ?thesis
      by (cases "scannedUrls res") simp_all
  qed
  from f(1,2) res seed one show ?thesis by simp
qed

theorem C2_page_budget_witness:
  "runScan demo_env (demo_options\<lparr>crawlLimit := 0\<rparr>) =
     Inr \<lparr> scannedUrls = [''http://example.com''],
           vulnerabilities = [demo_safe_finding],
           summary = \<lparr> totalVulnerabilities = 1, highSeverity = 0, mediumSeverity = 0,
                       lowSeverity = 0, securityScore = 100 \<rparr> \<rparr>
   \<and> crawlLimit (demo_options\<lparr>crawlLimit := 0\<rparr>) \<le> 0
   \<and> int (length [''http://example.com'']) \<le> max 1 (crawlLimit (demo_options\<lparr>crawlLimit := 0\<rparr>))
   \<and> url (demo_options\<lparr>crawlLimit := 0\<rparr>) = ''http://example.com''"
  using C2_page_budget [OF demo_run_zero] demo_run_zero
  by (simp add: demo_options_def)

text \<open>
  C5. A scan of level \<open>quick\<close> returns, visits the target and nothing else, pushes no
  URL on the frontier, and its result is the same whatever the anchor collector and the
  URL resolver are: link extraction takes no part in it.
\<close>

theorem C5_quick_scan:
  assumes "Scanner_new e opts = Inr sc" and "scanLevel opts = ''quick''"
  shows "runScan e opts = Inr (run e sc)
         \<and> scannedUrls (run e sc) = [url opts]
         \<and> enqueued e (run_init sc, []) = []
         \<and> runScan (e\<lparr>anchorHrefs := a, resolveUrl := r\<rparr>) opts = runScan e opts"
proof -
  let ?e = "e\<lparr>anchorHrefs := a, resolveUrl := r\<rparr>"
  note i = crawl_inv_init [OF assms(1)]
  have n': "Scanner_new ?e opts = Inr sc"
    using assms(1) Scanner_new_env [of ?e e opts] by simp
  have q: "sc_scanLevel sc = ''quick''"
    using i(5) assms(2) by (simp add: run_init_def split: if_splits)
  have pf: "pageFindings ?e sc (url opts) = pageFindings e sc (url opts)"
    using q checkCustomRules_env [of ?e e sc]
    by (auto simp: pageFindings_def processPage_def Let_def split: sum.splits)
  have 1: "runScan e opts = Inr (run e sc)"
    using assms(1) by (simp add: runScan_def)
  have 2: "scannedUrls (run e sc) = [url opts]"
    using run_single [OF assms(1)] assms(2) by simp
  have 3: "enqueued e (run_init sc, []) = []"
    using enqueued_fresh [OF i(1)] i(5) assms(2) by simp
  have "run ?e sc = run e sc"
    using run_single [OF assms(1)] run_single [OF n'] assms(2) pf by simp
  then have 4: "runScan ?e opts = runScan e opts"
    using assms(1) n' by (simp add: runScan_def)
  from 1 2 3 4 show ?thesis by simp
qed

theorem C5_quick_scan_witness:
  "Scanner_new demo_env (demo_options\<lparr>scanLevel := ''quick''\<rparr>)
     = Inr (demo_scanner\<lparr>sc_scanLevel := ''quick'',
                          sc_options := demo_options\<lparr>scanLevel := ''quick''\<rparr>\<rparr>)
   \<and> scanLevel (demo_options\<lparr>scanLevel := ''quick''\<rparr>) = ''quick''
   \<and> scannedUrls (run demo_env (demo_scanner\<lparr>sc_scanLevel := ''quick'',
                          sc_options := demo_options\<lparr>scanLevel := ''quick''\<rparr>\<rparr>))
       = [''http://example.com'']"
proof -
  have n: "Scanner_new demo_env (demo_options\<lparr>scanLevel := ''quick''\<rparr>)
     = Inr (demo_scanner\<lparr>sc_scanLevel := ''quick'',
                          sc_options := demo_options\<lparr>scanLevel := ''quick''\<rparr>\<rparr>)"
    by (simp add: Scanner_new_def demo_defs)
  have q: "scanLevel (demo_options\<lparr>scanLevel := ''quick''\<rparr>) = ''quick''"
    by simp
  from C5_quick_scan [OF n q] n q show ?thesis
    by (simp add: demo_options_def)
qed

text \<open>
  C7. Over a whole scan the URLs pushed on the frontier, the target that the constructor
  pushes included, are pairwise different; the list of visited URLs that the scan returns
  has no duplicates, and the findings returned are those of the visited pages, page after
  page, so that no page is processed twice. An iteration turns the queue into its tail
  followed by what it pushes. An iteration that shifts a URL already visited changes
  nothing but the queue: \<open>visited\<close>, whose size is what the budget is compared with, and the
  findings stay as they are.
\<close>

theorem C7_frontier_dedup:
  assumes "Scanner_new e opts = Inr sc"
  shows "distinct (url opts # enqueued e (run_init sc, []))
         \<and> distinct (scannedUrls (run e sc))
         \<and> vulnerabilities (run e sc) = concat (map (pageFindings e sc) (scannedUrls (run e sc)))
         \<and> (loop_cond s \<longrightarrow>
              queue (fst (loop_body e (s, vulns))) = tl (queue s) @ pushed e (s, vulns))
         \<and> (queue s = u # rest \<and> u \<in> set (visited s) \<longrightarrow>
              loop_body e (s, vulns) = (s\<lparr>queue := rest\<rparr>, vulns))"
proof -
  note i = crawl_inv_init [OF assms]
  from enqueued_fresh [OF i(1)] i(3,4)
  have 1: "distinct (url opts # enqueued e (run_init sc, []))"
    by simp
  note f = run_scannedUrls [OF assms]
  have 4: "loop_cond s \<longrightarrow>
             queue (fst (loop_body e (s, vulns))) = tl (queue s) @ pushed e (s, vulns)"
    using pushed_suffix [of "(s, vulns)" e] by simp
  have 5: "queue s = u # rest \<and> u \<in> set (visited s) \<longrightarrow>
             loop_body e (s, vulns) = (s\<lparr>queue := rest\<rparr>, vulns)"
    using loop_body_skip [of s u rest e vulns] by simp
  from 1 f(1) f(4) 4 5 show ?thesis by blast
qed

theorem C7_frontier_dedup_witness:
  "Scanner_new demo_env demo_options = Inr demo_scanner
   \<and> loop_cond (demo_scanner\<lparr>visited := [''http://example.com'']\<rparr>)
   \<and> queue (demo_scanner\<lparr>visited := [''http://example.com'']\<rparr>) = ''http://example.com'' # []
   \<and> ''http://example.com'' \<in> set (visited (demo_scanner\<lparr>visited := [''http://example.com'']\<rparr>))
   \<and> distinct (url demo_options # enqueued demo_env (run_init demo_scanner, []))
   \<and> distinct (scannedUrls (run demo_env demo_scanner))
   \<and> loop_body demo_env (demo_scanner\<lparr>visited := [''http://example.com'']\<rparr>, [])
       = (demo_scanner\<lparr>visited := [''http://example.com''], queue := []\<rparr>, [])"
proof -
  let ?s = "demo_scanner\<lparr>visited := [''http://example.com'']\<rparr>"
  have c: "loop_cond ?s"
    by (simp add: loop_cond_def demo_scanner_def)
  have q: "queue ?s = ''http://example.com'' # []"
    by (simp add: demo_scanner_def)
  have v: "''http://example.com'' \<in> set (visited ?s)"
    by simp
  from C7_frontier_dedup [OF demo_Scanner_new, of ?s "[]" "''http://example.com''" "[]"]
    demo_Scanner_new c q v
  show ?thesis by simp
qed

subsection \<open>Failures\<close>

text \<open>
  C4. When the fetch of \<open>u\<close> fails, the iteration that visits \<open>u\<close> appends the one
  finding \<open>accessError u m\<close>, where \<open>m\<close> is the message of the error, leaves the rest
  of the frontier as it is, and the loop goes on from that state. The finding is named
  \<open>URL Access Error\<close>, has severity \<open>low\<close> and category \<open>Accessibility\<close>, and its
  details hold the message. In the result of a scan the findings are those of the
  visited pages, page after page, and the findings of a page whose fetch failed are
  that one finding. A scan whose target cannot be fetched returns the target as its only
  visited URL, that finding as its only finding, and a summary with \<open>lowSeverity = 1\<close>.
\<close>

theorem C4_fetch_failure:
  assumes "httpGet e u = Inl err"
  shows "(queue s = u # rest \<and> u \<notin> set (visited s) \<longrightarrow>
            loop_body e (s, vulns)
              = (s\<lparr>queue := rest, visited := visited s @ [u]\<rparr>,
                 vulns @ [accessError u (errorMessage err)]))
         \<and> (queue s = u # rest \<and> u \<notin> set (visited s) \<and> loop_cond s \<longrightarrow>
              run_loop e (s, vulns)
                = run_loop e (s\<lparr>queue := rest, visited := visited s @ [u]\<rparr>,
                              vulns @ [accessError u (errorMessage err)]))
         \<and> accessError u (errorMessage err)
             = \<lparr> scanId = 0, name = ''URL Access Error'',
                 description = ''Could not access '' @ u @ '': '' @ errorMessage err,
                 vuln_url = u, severity = ''low'', category = ''Accessibility'',
                 details = [(''error'', DStr (errorMessage err))], status = ''pending'' \<rparr>
         \<and> (err = Thrown (Some m) \<longrightarrow> errorMessage err = m)
         \<and> (Scanner_new e opts = Inr sc \<longrightarrow>
              pageFindings e sc u = [accessError u (errorMessage err)]
              \<and> vulnerabilities (run e sc)
                  = concat (map (pageFindings e sc) (scannedUrls (run e sc))))
         \<and> (Scanner_new e opts = Inr sc \<and> url opts = u \<longrightarrow>
              runScan e opts
                = Inr \<lparr> scannedUrls = [u],
                        vulnerabilities = [accessError u (errorMessage err)],
                        summary = \<lparr> totalVulnerabilities = 1, highSeverity = 0,
                                    mediumSeverity = 0, lowSeverity = 1,
                                    securityScore = 98 \<rparr> \<rparr>)"
proof -
  have pf: "\<And>sc. pageFindings e sc u = [accessError u (errorMessage err)]"
    using assms by (simp add: pageFindings_def processPage_def)
  have body: "loop_body e (s, vulns)
                = (s\<lparr>queue := rest, visited := visited s @ [u]\<rparr>,
                   vulns @ [accessError u (errorMessage err)])"
    if "queue s = u # rest" "u \<notin> set (visited s)"
    using that assms by (simp add: loop_body_def processPage_def)
  have 1: "queue s = u # rest \<and> u \<notin> set (visited s) \<longrightarrow>
            loop_body e (s, vulns)
              = (s\<lparr>queue := rest, visited := visited s @ [u]\<rparr>,
                 vulns @ [accessError u (errorMessage err)])"
    using body by blast
  have 2: "queue s = u # rest \<and> u \<notin> set (visited s) \<and> loop_cond s \<longrightarrow>
              run_loop e (s, vulns)
                = run_loop e (s\<lparr>queue := rest, visited := visited s @ [u]\<rparr>,
                              vulns @ [accessError u (errorMessage err)])"
    using body by (simp add: run_loop.simps [of e "(s, vulns)"])
  have 3: "accessError u (errorMessage err)
             = \<lparr> scanId = 0, name = ''URL Access Error'',
                 description = ''Could not access '' @ u @ '': '' @ errorMessage err,
                 vuln_url = u, severity = ''low'', category = ''Accessibility'',
                 details = [(''error'', DStr (errorMessage err))], status = ''pending'' \<rparr>"
    by (simp add: accessError_def)
  have 4: "err = Thrown (Some m) \<longrightarrow> errorMessage err = m"
    by (simp add: errorMessage_def)
  have 5: "Scanner_new e opts = Inr sc \<longrightarrow>
              pageFindings e sc u = [accessError u (errorMessage err)]
              \<and> vulnerabilities (run e sc)
                  = concat (map (pageFindings e sc) (scannedUrls (run e sc)))"
    using pf run_scannedUrls(4) [of e opts sc] by blast
  have 6: "runScan e opts
                = Inr \<lparr> scannedUrls = [u],
                        vulnerabilities = [accessError u (errorMessage err)],
                        summary = \<lparr> totalVulnerabilities = 1, highSeverity = 0,
                                    mediumSeverity = 0, lowSeverity = 1,
                                    securityScore = 98 \<rparr> \<rparr>"
    if n: "Scanner_new e opts = Inr sc" and s: "url opts = u"
  proof -
    from assms s have "\<exists>err. httpGet e (url opts) = Inl err" by blast
    with run_single [OF n] pf [of sc] s
    have "run e sc = \<lparr> scannedUrls = [u],
                        vulnerabilities = [accessError u (errorMessage err)],
                        summary = calculateSummary [accessError u (errorMessage err)] \<rparr>"
      by simp
    moreover have "calculateSummary [accessError u (errorMessage err)]
                     = \<lparr> totalVulnerabilities = 1, highSeverity = 0, mediumSeverity = 0,
                         lowSeverity = 1, securityScore = 98 \<rparr>"
      by (simp add: calculateSummary_def accessError_def)
    ultimately show ?thesis using n by (simp add: runScan_def)
  qed
  from 1 2 3 4 5 6 show ?thesis by blast
qed

theorem C4_fetch_failure_witness:
  "httpGet demo_env ''http://example.com/a'' = Inl (Thrown (Some ''timeout of 15000ms exceeded''))
   \<and> Scanner_new demo_env (demo_options\<lparr>url := ''http://example.com/a''\<rparr>)
       = Inr (demo_scanner\<lparr>queue := [''http://example.com/a''],
                            sc_options := demo_options\<lparr>url := ''http://example.com/a''\<rparr>\<rparr>)
   \<and> queue (demo_scanner\<lparr>queue := [''http://example.com/a''],
                            sc_options := demo_options\<lparr>url := ''http://example.com/a''\<rparr>\<rparr>)
       = ''http://example.com/a'' # []
   \<and> ''http://example.com/a''
       \<notin> set (visited (demo_scanner\<lparr>queue := [''http://example.com/a''],
                            sc_options := demo_options\<lparr>url := ''http://example.com/a''\<rparr>\<rparr>))
   \<and> loop_cond (demo_scanner\<lparr>queue := [''http://example.com/a''],
                            sc_options := demo_options\<lparr>url := ''http://example.com/a''\<rparr>\<rparr>)
   \<and> url (demo_options\<lparr>url := ''http://example.com/a''\<rparr>) = ''http://example.com/a''
   \<and> runScan demo_env (demo_options\<lparr>url := ''http://example.com/a''\<rparr>)
       = Inr \<lparr> scannedUrls = [''http://example.com/a''],
               vulnerabilities = [demo_access_error],
               summary = \<lparr> totalVulnerabilities = 1, highSeverity = 0, mediumSeverity = 0,
                           lowSeverity = 1, securityScore = 98 \<rparr> \<rparr>"
proof -
  let ?u = "''http://example.com/a''"
  let ?opts = "demo_options\<lparr>url := ?u\<rparr>"
  let ?sc = "demo_scanner\<lparr>queue := [?u], sc_options := ?opts\<rparr>"
  let ?err = "Thrown (Some ''timeout of 15000ms exceeded'')"
  have h: "httpGet demo_env ?u = Inl ?err"
    by (simp add: demo_env_def)
  have n: "Scanner_new demo_env ?opts = Inr ?sc"
    by (simp add: Scanner_new_def demo_defs)
  have q: "queue ?sc = ?u # []" by simp
  have v: "?u \<notin> set (visited ?sc)" by (simp add: demo_scanner_def)
  have c: "loop_cond ?sc" by (simp add: loop_cond_def demo_scanner_def)
  have s: "url ?opts = ?u" by simp
  have m: "errorMessage ?err = ''timeout of 15000ms exceeded''"
    by (simp add: errorMessage_def)
  from C4_fetch_failure [OF h, of ?sc "[]" "[]" "''timeout of 15000ms exceeded''" ?opts ?sc]
    h n q v c s m
  show ?thesis by (simp add: demo_access_error_def)
qed

text \<open>
  C9. When \<open>new URL\<close> throws on the target, the constructor throws
  \<open>Invalid URL format\<close> and so does \<open>runScan\<close>, whatever the fetcher and the
  detector are: there is no result, hence no visited URL and no finding. It is the only
  error of \<open>runScan\<close>: a scan on whose target \<open>new URL\<close> returns, returns a result.
\<close>

theorem C9_invalid_target:
  "(parseUrl e (url opts) = None \<longrightarrow>
      Scanner_new e opts = Inl (Thrown (Some ''Invalid URL format''))
      \<and> runScan e opts = Inl (Thrown (Some ''Invalid URL format''))
      \<and> runScan (e\<lparr>httpGet := g, detectVulnerabilities := d\<rparr>) opts
          = Inl (Thrown (Some ''Invalid URL format'')))
   \<and> ((\<exists>err. runScan e opts = Inl err) \<longleftrightarrow> parseUrl e (url opts) = None)"
proof (cases "parseUrl e (url opts)")
  case None
  then show ?thesis by (simp add: runScan_def Scanner_new_def)
next
  case (Some ph)
  then show ?thesis by (cases ph) (simp add: runScan_def Scanner_new_def)
qed

theorem C9_invalid_target_witness:
  "parseUrl demo_env (url (demo_options\<lparr>url := ''not a url''\<rparr>)) = None
   \<and> runScan demo_env (demo_options\<lparr>url := ''not a url''\<rparr>)
       = Inl (Thrown (Some ''Invalid URL format''))
   \<and> (\<exists>err. runScan demo_env (demo_options\<lparr>url := ''not a url''\<rparr>) = Inl err)"
proof -
  have p: "parseUrl demo_env (url (demo_options\<lparr>url := ''not a url''\<rparr>)) = None"
    by (simp add: demo_env_def)
  from C9_invalid_target [of demo_env "demo_options\<lparr>url := ''not a url''\<rparr>"] p
  show ?thesis by blast
qed

text \<open>
  C9, for a target that cannot be parsed into a scheme and a host although \<open>new URL\<close>
  returns on it. Such a target is not refused: \<open>new URL\<close> returns on
  \<open>mailto:a@b.c\<close>, with the empty host, and the scan of that target returns, with the
  target as visited and the finding of its failed fetch.
\<close>

theorem C9_hostless_target_scanned:
  "parseUrl demo_env ''mailto:a@b.c'' = Some (''mailto:'', [])
   \<and> runScan demo_env (demo_options\<lparr>url := ''mailto:a@b.c''\<rparr>)
       = Inr \<lparr> scannedUrls = [''mailto:a@b.c''],
               vulnerabilities = [accessError ''mailto:a@b.c'' ''Unsupported protocol mailto:''],
               summary = \<lparr> totalVulnerabilities = 1, highSeverity = 0, mediumSeverity = 0,
                           lowSeverity = 1, securityScore = 98 \<rparr> \<rparr>"
proof -
  have "parseUrl demo_env ''mailto:a@b.c'' = Some (''mailto:'', [])"
    by (simp add: demo_env_def)
  moreover have "runScan demo_env (demo_options\<lparr>url := ''mailto:a@b.c''\<rparr>)
       = Inr \<lparr> scannedUrls = [''mailto:a@b.c''],
               vulnerabilities = [accessError ''mailto:a@b.c'' ''Unsupported protocol mailto:''],
               summary = \<lparr> totalVulnerabilities = 1, highSeverity = 0, mediumSeverity = 0,
                           lowSeverity = 1, securityScore = 98 \<rparr> \<rparr>"
    by (simp add: scan_defs run_loop.simps demo_defs)
  ultimately show ?thesis by simp
qed

subsection \<open>The custom rule evaluator\<close>




text \<open>
  C8. A rule whose pattern throws on the body of a page yields no finding there, and the
  evaluator returns what it returns without that rule: the findings of the rules before
  it followed by those of the rules after it. For a whole scan, a pattern that throws is
  a pattern that does not match: the scan returns the same result in the environment
  where \<open>new RegExp(p, 'i').test(c)\<close> is \<open>false\<close> wherever it threw.
\<close>

theorem C8_bad_pattern_skipped:
  "(regexTest e (rule_pattern bad) ''i'' content = Inl err \<longrightarrow>
      checkCustomRules e (sc\<lparr>sc_customRules := before @ bad # after\<rparr>) u content
        = checkCustomRules e (sc\<lparr>sc_customRules := before @ after\<rparr>) u content)
   \<and> checkCustomRules e (sc\<lparr>sc_customRules := before @ after\<rparr>) u content
       = checkCustomRules e (sc\<lparr>sc_customRules := before\<rparr>) u content
         @ checkCustomRules e (sc\<lparr>sc_customRules := after\<rparr>) u content
   \<and> runScan (quietRegex e) opts = runScan e opts"
proof -
  have "\<not> ruleFires e content bad" if "regexTest e (rule_pattern bad) ''i'' content = Inl err"
    using that by (simp add: ruleFires_def)
  then have 1: "regexTest e (rule_pattern bad) ''i'' content = Inl err \<longrightarrow>
      checkCustomRules e (sc\<lparr>sc_customRules := before @ bad # after\<rparr>) u content
        = checkCustomRules e (sc\<lparr>sc_customRules := before @ after\<rparr>) u content"
    by (simp add: checkCustomRules_filter)
  have 2: "checkCustomRules e (sc\<lparr>sc_customRules := before @ after\<rparr>) u content
       = checkCustomRules e (sc\<lparr>sc_customRules := before\<rparr>) u content
         @ checkCustomRules e (sc\<lparr>sc_customRules := after\<rparr>) u content"
    by (simp add: checkCustomRules_filter)
  from 1 2 runScan_quietRegex [of e opts] show ?thesis by blast
qed

theorem C8_bad_pattern_skipped_witness:
  "regexTest demo_env (rule_pattern demo_bad_rule) ''i'' ''home''
     = Inl (Thrown (Some ''Invalid regular expression: /(/: Unterminated group''))
   \<and> checkCustomRules demo_env (demo_scanner\<lparr>sc_customRules := [] @ demo_bad_rule # [demo_rule]\<rparr>)
        ''http://example.com'' ''home''
       = checkCustomRules demo_env (demo_scanner\<lparr>sc_customRules := [] @ [demo_rule]\<rparr>)
           ''http://example.com'' ''home''
   \<and> checkCustomRules demo_env (demo_scanner\<lparr>sc_customRules := [] @ [demo_rule]\<rparr>)
        ''http://example.com'' ''home'' = [demo_safe_finding]"
proof -
  have h: "regexTest demo_env (rule_pattern demo_bad_rule) ''i'' ''home''
     = Inl (Thrown (Some ''Invalid regular expression: /(/: Unterminated group''))"
    by (simp add: demo_env_def demo_bad_rule_def)
  have r: "checkCustomRules demo_env (demo_scanner\<lparr>sc_customRules := [] @ [demo_rule]\<rparr>)
        ''http://example.com'' ''home'' = [demo_safe_finding]"
    by (simp add: checkCustomRules_def demo_defs)
  from C8_bad_pattern_skipped [where e = demo_env and bad = demo_bad_rule and content = "''home''"
      and sc = demo_scanner and before = "[]" and after = "[demo_rule]"
      and u = "''http://example.com''"] h r
  show ?thesis by blast
qed

subsection \<open>The summary\<close>

lemma count_severity:
  "length (filter (\<lambda>v. severity v = s) F) = count_list (map severity F) s"
  by (induction F) auto

lemma calculateSummary_mset:
  assumes m: "mset F' = mset F"
  shows "calculateSummary F' = calculateSummary F"
proof -
  have "\<And>P. length (filter P F') = length (filter P F)"
    using m by (metis mset_filter size_mset)
  moreover have "length F' = length F"
    using m by (metis size_mset)
  ultimately show ?thesis
    by (simp add: calculateSummary_def)
qed

text \<open>
  C3. For every finding list \<open>F\<close> the summary has \<open>totalVulnerabilities = |F|\<close>, its
  three severity counts are the numbers of findings whose severity is exactly
  \<open>high\<close>, \<open>medium\<close> and \<open>low\<close>, its score is
  \<open>100 - 10 * high - 5 * medium - 2 * low\<close> clamped to \<open>[0, 100]\<close>, and every
  permutation \<open>F'\<close> of \<open>F\<close> has the same summary.
\<close>

theorem C3_summary:
  "totalVulnerabilities (calculateSummary F) = length F
   \<and> highSeverity (calculateSummary F) = count_list (map severity F) ''high''
   \<and> mediumSeverity (calculateSummary F) = count_list (map severity F) ''medium''
   \<and> lowSeverity (calculateSummary F) = count_list (map severity F) ''low''
   \<and> securityScore (calculateSummary F) =
       max 0 (min 100 (100 - 10 * int (count_list (map severity F) ''high'')
                          - 5 * int (count_list (map severity F) ''medium'')
                          - 2 * int (count_list (map severity F) ''low'')))
   \<and> (mset F' = mset F \<longrightarrow> calculateSummary F' = calculateSummary F)"
proof (intro conjI impI)
  show "totalVulnerabilities (calculateSummary F) = length F"
    by (simp add: calculateSummary_def Let_def)
  show "highSeverity (calculateSummary F) = count_list (map severity F) ''high''"
    by (simp add: calculateSummary_def Let_def count_severity)
  show "mediumSeverity (calculateSummary F) = count_list (map severity F) ''medium''"
    by (simp add: calculateSummary_def Let_def count_severity)
  show "lowSeverity (calculateSummary F) = count_list (map severity F) ''low''"
    by (simp add: calculateSummary_def Let_def count_severity)
  show "securityScore (calculateSummary F) =
       max 0 (min 100 (100 - 10 * int (count_list (map severity F) ''high'')
                          - 5 * int (count_list (map severity F) ''medium'')
                          - 2 * int (count_list (map severity F) ''low'')))"
    by (simp add: calculateSummary_def Let_def count_severity max_def min_def)
  show "calculateSummary F' = calculateSummary F" if "mset F' = mset F"
    using that by (rule calculateSummary_mset)
qed

theorem C3_summary_witness:
  "mset [demo_safe_finding, demo_access_error] = mset [demo_access_error, demo_safe_finding]
   \<and> calculateSummary [demo_safe_finding, demo_access_error]
       = calculateSummary [demo_access_error, demo_safe_finding]"
proof -
  have m: "mset [demo_safe_finding, demo_access_error] = mset [demo_access_error, demo_safe_finding]"
    by simp
  from C3_summary [of "[demo_access_error, demo_safe_finding]" "[demo_safe_finding, demo_access_error]"] m
  have "calculateSummary [demo_safe_finding, demo_access_error]
          = calculateSummary [demo_access_error, demo_safe_finding]"
    by blast
  with m show ?thesis by blast
qed

text \<open>
  C10. For every finding list the three severity counts add up to at most
  \<open>totalVulnerabilities\<close>, and to strictly less as soon as one finding has a severity
  other than \<open>high\<close>, \<open>medium\<close> and \<open>low\<close> (such as \<open>safe\<close>). Adding such a
  finding \<open>f\<close> to a list, at either end, raises \<open>totalVulnerabilities\<close> by one and
  leaves the three counts and the score as they were.
\<close>

theorem C10_severity_buckets:
  "highSeverity (calculateSummary F) + mediumSeverity (calculateSummary F)
       + lowSeverity (calculateSummary F)
     \<le> totalVulnerabilities (calculateSummary F)
   \<and> ((\<exists>v \<in> set F. severity v \<notin> {''high'', ''medium'', ''low''}) \<longrightarrow>
        highSeverity (calculateSummary F) + mediumSeverity (calculateSummary F)
            + lowSeverity (calculateSummary F)
          < totalVulnerabilities (calculateSummary F))
   \<and> (severity f \<notin> {''high'', ''medium'', ''low''} \<longrightarrow>
        calculateSummary (F @ [f]) =
          (calculateSummary F)\<lparr>totalVulnerabilities := totalVulnerabilities (calculateSummary F) + 1\<rparr>
        \<and> calculateSummary (f # F) = calculateSummary (F @ [f]))"
proof (intro conjI impI)
  let ?h = "length (filter (\<lambda>v. severity v = ''high'') F)"
  let ?m = "length (filter (\<lambda>v. severity v = ''medium'') F)"
  let ?l = "length (filter (\<lambda>v. severity v = ''low'') F)"
  let ?o = "length (filter (\<lambda>v. severity v \<notin> {''high'', ''medium'', ''low''}) F)"
  have split: "?h + ?m + ?l + ?o = length F"
    by (induction F) auto
  show "highSeverity (calculateSummary F) + mediumSeverity (calculateSummary F)
          + lowSeverity (calculateSummary F)
        \<le> totalVulnerabilities (calculateSummary F)"
    using split by (simp add: calculateSummary_def Let_def)
  show "highSeverity (calculateSummary F) + mediumSeverity (calculateSummary F)
            + lowSeverity (calculateSummary F)
          < totalVulnerabilities (calculateSummary F)"
    if "\<exists>v \<in> set F. severity v \<notin> {''high'', ''medium'', ''low''}"
  proof -
    from that have "filter (\<lambda>v. severity v \<notin> {''high'', ''medium'', ''low''}) F \<noteq> []"
      by (simp add: filter_empty_conv)
    then have "0 < ?o" by simp
    with split have "?h + ?m + ?l < length F" by linarith
    then show ?thesis by (simp add: calculateSummary_def Let_def)
  qed
  show "calculateSummary (F @ [f]) =
          (calculateSummary F)\<lparr>totalVulnerabilities := totalVulnerabilities (calculateSummary F) + 1\<rparr>"
    if "severity f \<notin> {''high'', ''medium'', ''low''}"
    using that by (simp add: calculateSummary_def Let_def)
  show "calculateSummary (f # F) = calculateSummary (F @ [f])"
    if "severity f \<notin> {''high'', ''medium'', ''low''}"
    by (rule calculateSummary_mset) simp
qed

theorem C10_severity_buckets_witness:
  "(\<exists>v \<in> set [demo_access_error, demo_safe_finding]. severity v \<notin> {''high'', ''medium'', ''low''})
   \<and> severity demo_safe_finding \<notin> {''high'', ''medium'', ''low''}
   \<and> highSeverity (calculateSummary [demo_access_error, demo_safe_finding])
        + mediumSeverity (calculateSummary [demo_access_error, demo_safe_finding])
        + lowSeverity (calculateSummary [demo_access_error, demo_safe_finding])
      < totalVulnerabilities (calculateSummary [demo_access_error, demo_safe_finding])
   \<and> calculateSummary ([demo_access_error, demo_safe_finding] @ [demo_safe_finding]) =
        (calculateSummary [demo_access_error, demo_safe_finding])
          \<lparr>totalVulnerabilities :=
             totalVulnerabilities (calculateSummary [demo_access_error, demo_safe_finding]) + 1\<rparr>"
proof -
  have s: "severity demo_safe_finding \<notin> {''high'', ''medium'', ''low''}"
    by (simp add: demo_safe_finding_def ruleFinding_def demo_rule_def)
  then have x: "\<exists>v \<in> set [demo_access_error, demo_safe_finding]. severity v \<notin> {''high'', ''medium'', ''low''}"
    by simp
  from C10_severity_buckets [of "[demo_access_error, demo_safe_finding]" demo_safe_finding] s x
  show ?thesis by blast
qed

end
